theory Spec2Isabelle
  imports Main "HOL-Library.Sublist"
begin

section \<open>JavaScript strings\<close>

text \<open>
  A JavaScript string is a sequence of UTF-16 code units. A code unit is modelled by its
  number, so a string is a list of naturals; every JavaScript string is such a list with
  all elements below 65536, and nothing below depends on that bound. String literals of the
  source are written with \<open>js\<close>, which maps an ASCII literal to its code units.
\<close>

type_synonym code_unit = nat
type_synonym jsstring = "code_unit list"

definition js :: "string \<Rightarrow> jsstring" where
  "js s = map of_char s"

definition LF :: code_unit where
  "LF = 10"

definition CR :: code_unit where
  "CR = 13"

text \<open>\<open>s.replace(/\r/g, "")\<close>: every carriage return is removed.\<close>

definition strip_cr :: "jsstring \<Rightarrow> jsstring" where
  "strip_cr s = filter (\<lambda>c. c \<noteq> CR) s"

text \<open>
  \<open>s.indexOf(pat)\<close>: the least position at which \<open>pat\<close> occurs in \<open>s\<close>;
  JavaScript's \<open>-1\<close> is \<open>None\<close>.
\<close>

fun indexOf :: "jsstring \<Rightarrow> jsstring \<Rightarrow> nat option" where
  "indexOf pat [] = (if pat = [] then Some 0 else None)"
| "indexOf pat (c # cs) =
     (if take (length pat) (c # cs) = pat then Some 0
      else map_option Suc (indexOf pat cs))"

text \<open>\<open>s.split(sep)\<close> for a separator of one code unit; the result is never empty.\<close>

fun split_str :: "code_unit \<Rightarrow> jsstring \<Rightarrow> jsstring list" where
  "split_str sep [] = [[]]"
| "split_str sep (c # cs) =
     (if c = sep then [] # split_str sep cs
      else (case split_str sep cs of
              [] \<Rightarrow> [[c]]
            | l # ls \<Rightarrow> (c # l) # ls))"

text \<open>\<open>xs.join(sep)\<close> on an array of strings.\<close>

fun join :: "jsstring \<Rightarrow> jsstring list \<Rightarrow> jsstring" where
  "join sep [] = []"
| "join sep [x] = x"
| "join sep (x # y # ys) = x @ sep @ join sep (y # ys)"

text \<open>\<open>s.startsWith(p)\<close>.\<close>

definition startsWith :: "jsstring \<Rightarrow> jsstring \<Rightarrow> bool" where
  "startsWith s p = (take (length p) s = p)"

text \<open>
  The code units that \<open>trimStart\<close> and \<open>trim\<close> remove: ECMAScript's WhiteSpace
  (TAB, VT, FF, ZWNBSP and the Unicode space separators) and LineTerminator
  (LF, CR, LS, PS).
\<close>

definition isWhiteSpace :: "code_unit \<Rightarrow> bool" where
  "isWhiteSpace c =
     (c = 9 \<or> c = 10 \<or> c = 11 \<or> c = 12 \<or> c = 13 \<or> c = 32 \<or> c = 160 \<or> c = 5760
      \<or> (8192 \<le> c \<and> c \<le> 8202) \<or> c = 8232 \<or> c = 8233 \<or> c = 8239 \<or> c = 8287
      \<or> c = 12288 \<or> c = 65279)"

definition trimStart :: "jsstring \<Rightarrow> jsstring" where
  "trimStart s = dropWhile isWhiteSpace s"

definition trimEnd :: "jsstring \<Rightarrow> jsstring" where
  "trimEnd s = rev (dropWhile isWhiteSpace (rev s))"

definition trim :: "jsstring \<Rightarrow> jsstring" where
  "trim s = trimStart (trimEnd s)"

section \<open>The demuxer: \<open>consumeSseEvents\<close>\<close>

text \<open>
  The body of the \<open>for (const line of lines)\<close> loop: a line that starts with
  \<open>data:\<close> contributes the rest of the line, leading white space removed.
\<close>

fun dataLines_of :: "jsstring list \<Rightarrow> jsstring list" where
  "dataLines_of [] = []"
| "dataLines_of (line # lines) =
     (if startsWith line (js ''data:'')
      then trimStart (drop (length (js ''data:'')) line) # dataLines_of lines
      else dataLines_of lines)"

lemma indexOf_bound: "indexOf pat s = Some i \<Longrightarrow> i + length pat \<le> length s"
proof (induction s arbitrary: i)
  case Nil
  then show ?case by (simp split: if_splits)
next
  case (Cons c cs)
  show ?case
  proof (cases "take (length pat) (c # cs) = pat")
    case True
    then have "length (take (length pat) (c # cs)) = length pat"
      by simp
    then have "length pat \<le> length (c # cs)"
      by simp
    with True Cons.prems show ?thesis by simp
  next
    case False
    with Cons.prems obtain j where "indexOf pat cs = Some j" "i = Suc j"
      by auto
    with Cons.IH show ?thesis by simp
  qed
qed

text \<open>
  The \<open>while\<close> loop of \<open>consumeSseEvents\<close>, with its two variables
  \<open>normalized\<close> and \<open>events\<close>. Each round removes at least the two code units of the
  terminator, so the loop ends.
\<close>

function sse_loop :: "jsstring \<Rightarrow> jsstring list \<Rightarrow> jsstring list \<times> jsstring" where
  "sse_loop normalized events =
     (case indexOf [LF, LF] normalized of
        None \<Rightarrow> (events, normalized)
      | Some eventEndIndex \<Rightarrow>
          (let rawEvent = take eventEndIndex normalized;
               normalized' = drop (eventEndIndex + 2) normalized;
               dataLines = dataLines_of (split_str LF rawEvent)
           in if length dataLines = 0 then sse_loop normalized' events
              else sse_loop normalized' (events @ [join [LF] dataLines])))"
  by pat_completeness auto
termination
  by (relation "measure (\<lambda>(normalized, events). length normalized)")
     (auto dest!: indexOf_bound)

declare sse_loop.simps [simp del]

text \<open>
  \<open>consumeSseEvents(buffer)\<close> returns the object \<open>{ events, buffer: normalized }\<close>,
  here the pair of the two.
\<close>

definition consumeSseEvents :: "jsstring \<Rightarrow> jsstring list \<times> jsstring" where
  "consumeSseEvents buffer = sse_loop (strip_cr buffer) []"

section \<open>JSON values and \<open>JSON.parse\<close>\<close>

text \<open>
  The values \<open>JSON.parse\<close> can return. A number is kept as the text of its literal: its
  IEEE 754 value is not modelled. An object keeps its members in source order, duplicates
  included; a lookup takes the last one, as \<open>JSON.parse\<close> lets a later duplicate win.
\<close>

datatype jsval =
    JNull
  | JBool bool
  | JNum jsstring
  | JStr jsstring
  | JArr "jsval list"
  | JObj "(jsstring \<times> jsval) list"

definition isJsonWs :: "code_unit \<Rightarrow> bool" where
  "isJsonWs c = (c = 9 \<or> c = 10 \<or> c = 13 \<or> c = 32)"

definition skip_ws :: "jsstring \<Rightarrow> jsstring" where
  "skip_ws s = dropWhile isJsonWs s"

definition isDigit :: "code_unit \<Rightarrow> bool" where
  "isDigit c = (48 \<le> c \<and> c \<le> 57)"

definition hexval :: "code_unit \<Rightarrow> nat option" where
  "hexval c =
     (if 48 \<le> c \<and> c \<le> 57 then Some (c - 48)
      else if 65 \<le> c \<and> c \<le> 70 then Some (c - 55)
      else if 97 \<le> c \<and> c \<le> 102 then Some (c - 87)
      else None)"

definition hex4 :: "code_unit \<Rightarrow> code_unit \<Rightarrow> code_unit \<Rightarrow> code_unit \<Rightarrow> code_unit option" where
  "hex4 a b c d =
     (case (hexval a, hexval b, hexval c, hexval d) of
        (Some x, Some y, Some z, Some w) \<Rightarrow> Some (((x * 16 + y) * 16 + z) * 16 + w)
      | _ \<Rightarrow> None)"

text \<open>The one-letter escapes: \<open>\" \\ \/ \b \f \n \r \t\<close>.\<close>

definition escape :: "code_unit \<Rightarrow> code_unit option" where
  "escape e =
     (if e = 34 then Some 34 else if e = 92 then Some 92 else if e = 47 then Some 47
      else if e = 98 then Some 8 else if e = 102 then Some 12 else if e = 110 then Some 10
      else if e = 114 then Some 13 else if e = 116 then Some 9 else None)"

text \<open>
  The characters of a string literal after its opening quote, up to the closing quote:
  the string's value and the rest of the input. A control character (below U+0020) is
  not allowed unescaped.
\<close>

fun parse_chars :: "jsstring \<Rightarrow> (jsstring \<times> jsstring) option" where
  "parse_chars [] = None"
| "parse_chars (c # cs) =
     (if c = 34 then Some ([], cs)
      else if c = 92 then
        (case cs of
           [] \<Rightarrow> None
         | e # es \<Rightarrow>
             if e = 117 then
               (case es of
                  h1 # h2 # h3 # h4 # rest \<Rightarrow>
                    (case hex4 h1 h2 h3 h4 of
                       None \<Rightarrow> None
                     | Some u \<Rightarrow> map_option (\<lambda>(str, r). (u # str, r)) (parse_chars rest))
                | _ \<Rightarrow> None)
             else
               (case escape e of
                  None \<Rightarrow> None
                | Some u \<Rightarrow> map_option (\<lambda>(str, r). (u # str, r)) (parse_chars es)))
      else if c < 32 then None
      else map_option (\<lambda>(str, r). (c # str, r)) (parse_chars cs))"

text \<open>
  A number literal \<open>-? (0 | [1-9][0-9]*) (. [0-9]+)? ([eE] [+-]? [0-9]+)?\<close> at the head
  of the input: the lengths of its integer part, of its fraction and of its exponent
  (\<open>None\<close> where a digit is required and missing), then its text and the rest of the
  input.
\<close>

definition int_length :: "jsstring \<Rightarrow> nat option" where
  "int_length s =
     (case s of
        [] \<Rightarrow> None
      | d # r \<Rightarrow>
          if \<not> isDigit d then None
          else if d = 48 then Some 1
          else Some (1 + length (takeWhile isDigit r)))"

definition frac_length :: "jsstring \<Rightarrow> nat option" where
  "frac_length s =
     (if startsWith s [46] then
        (if takeWhile isDigit (drop 1 s) = [] then None
         else Some (1 + length (takeWhile isDigit (drop 1 s))))
      else Some 0)"

definition exp_length :: "jsstring \<Rightarrow> nat option" where
  "exp_length s =
     (if startsWith s [101] \<or> startsWith s [69] then
        (let sign = (if startsWith (drop 1 s) [43] \<or> startsWith (drop 1 s) [45] then 1 else 0)
         in if takeWhile isDigit (drop (1 + sign) s) = [] then None
            else Some (1 + sign + length (takeWhile isDigit (drop (1 + sign) s))))
      else Some 0)"

definition number_length :: "jsstring \<Rightarrow> nat option" where
  "number_length s =
     (let sign = (if startsWith s [45] then 1 else 0)
      in case int_length (drop sign s) of
           None \<Rightarrow> None
         | Some i \<Rightarrow>
             (case frac_length (drop (sign + i) s) of
                None \<Rightarrow> None
              | Some f \<Rightarrow>
                  (case exp_length (drop (sign + i + f) s) of
                     None \<Rightarrow> None
                   | Some e \<Rightarrow> Some (sign + i + f + e))))"

definition parse_number :: "jsstring \<Rightarrow> (jsstring \<times> jsstring) option" where
  "parse_number s = map_option (\<lambda>n. (take n s, drop n s)) (number_length s)"

text \<open>
  The recursive descent over values, array elements and object members. The first
  argument bounds the depth of the recursion; \<open>JSON_parse\<close> starts it at twice the length
  of the text plus two, which no text reaches: a value takes a code unit before it
  descends, and an element or a member after the first takes two. Lemma
  \<open>JSON_parse_fuel\<close> below shows that a larger bound gives the same result. The limit
  an engine puts on the depth of nesting is not modelled.
\<close>

fun parse_value :: "nat \<Rightarrow> jsstring \<Rightarrow> (jsval \<times> jsstring) option"
  and parse_elements :: "nat \<Rightarrow> jsstring \<Rightarrow> (jsval list \<times> jsstring) option"
  and parse_members :: "nat \<Rightarrow> jsstring \<Rightarrow> ((jsstring \<times> jsval) list \<times> jsstring) option"
where
  "parse_value n s =
     (if n = 0 then None
      else
        (case s of
           [] \<Rightarrow> None
         | c # cs \<Rightarrow>
             if c = 123 then
               (if startsWith (skip_ws cs) [125] then Some (JObj [], drop 1 (skip_ws cs))
                else map_option (\<lambda>(ms, r). (JObj ms, r)) (parse_members (n - 1) cs))
             else if c = 91 then
               (if startsWith (skip_ws cs) [93] then Some (JArr [], drop 1 (skip_ws cs))
                else map_option (\<lambda>(vs, r). (JArr vs, r)) (parse_elements (n - 1) cs))
             else if c = 34 then map_option (\<lambda>(str, r). (JStr str, r)) (parse_chars cs)
             else if startsWith s (js ''true'') then Some (JBool True, drop 4 s)
             else if startsWith s (js ''false'') then Some (JBool False, drop 5 s)
             else if startsWith s (js ''null'') then Some (JNull, drop 4 s)
             else map_option (\<lambda>(lit, r). (JNum lit, r)) (parse_number s)))"
| "parse_elements n s =
     (if n = 0 then None
      else
        (case parse_value (n - 1) (skip_ws s) of
           None \<Rightarrow> None
         | Some (v, r) \<Rightarrow>
             if startsWith (skip_ws r) [44]
             then map_option (\<lambda>(vs, r'). (v # vs, r'))
                    (parse_elements (n - 1) (drop 1 (skip_ws r)))
             else if startsWith (skip_ws r) [93] then Some ([v], drop 1 (skip_ws r))
             else None))"
| "parse_members n s =
     (if n = 0 then None
      else if \<not> startsWith (skip_ws s) [34] then None
      else
        (case parse_chars (drop 1 (skip_ws s)) of
           None \<Rightarrow> None
         | Some (key, r) \<Rightarrow>
             if \<not> startsWith (skip_ws r) [58] then None
             else
               (case parse_value (n - 1) (skip_ws (drop 1 (skip_ws r))) of
                  None \<Rightarrow> None
                | Some (v, r') \<Rightarrow>
                    if startsWith (skip_ws r') [44]
                    then map_option (\<lambda>(ms, r''). ((key, v) # ms, r''))
                           (parse_members (n - 1) (drop 1 (skip_ws r')))
                    else if startsWith (skip_ws r') [125]
                    then Some ([(key, v)], drop 1 (skip_ws r'))
                    else None)))"

declare parse_value.simps [simp del]
declare parse_elements.simps [simp del]
declare parse_members.simps [simp del]

text \<open>
  \<open>JSON.parse(text)\<close>: one value with white space around it and nothing else.
  \<open>None\<close> is the \<open>SyntaxError\<close> it throws.
\<close>

definition JSON_parse :: "jsstring \<Rightarrow> jsval option" where
  "JSON_parse text =
     (case parse_value (2 * length text + 2) (skip_ws text) of
        None \<Rightarrow> None
      | Some (v, r) \<Rightarrow> if skip_ws r = [] then Some v else None)"

section \<open>The accumulator: \<open>processSseDataChunk\<close>\<close>

text \<open>
  Reading a property of a parsed value. \<open>None\<close> is \<open>undefined\<close>. The names read by
  the source (\<open>response\<close>, \<open>choices\<close>, \<open>delta\<close>, \<open>content\<close>) are defined by no
  built-in prototype, so only an object's own members can hold them; the index \<open>0\<close>
  is also held by a non-empty array and a non-empty string. Reading a property of
  \<open>null\<close> throws and is handled where it can happen.
\<close>

definition lookup :: "(jsstring \<times> jsval) list \<Rightarrow> jsstring \<Rightarrow> jsval option" where
  "lookup ms k = map_of (rev ms) k"

fun get_field :: "jsstring \<Rightarrow> jsval \<Rightarrow> jsval option" where
  "get_field k (JObj ms) = lookup ms k"
| "get_field k _ = None"

fun get_index0 :: "jsval \<Rightarrow> jsval option" where
  "get_index0 (JObj ms) = lookup ms (js ''0'')"
| "get_index0 (JArr vs) = (case vs of [] \<Rightarrow> None | v # _ \<Rightarrow> Some v)"
| "get_index0 (JStr s) = (case s of [] \<Rightarrow> None | c # _ \<Rightarrow> Some (JStr [c]))"
| "get_index0 _ = None"

text \<open>Optional chaining \<open>a?.p\<close>: \<open>undefined\<close> when \<open>a\<close> is \<open>undefined\<close> or \<open>null\<close>.\<close>

fun opt_chain :: "(jsval \<Rightarrow> jsval option) \<Rightarrow> jsval option \<Rightarrow> jsval option" where
  "opt_chain get None = None"
| "opt_chain get (Some JNull) = None"
| "opt_chain get (Some v) = get v"

text \<open>
  The floating-point side of a number is a parameter of the model: \<open>numberToString\<close>
  maps the text of a JSON number literal to the string that JavaScript prints for
  its value (\<open>"1.0"\<close> to \<open>"1"\<close>, \<open>"-0"\<close> to \<open>"0"\<close>). A number is falsy exactly
  when it is a zero, which is when it prints as \<open>"0"\<close>; \<open>JSON.parse\<close> makes no NaN.
\<close>

fun truthy :: "(jsstring \<Rightarrow> jsstring) \<Rightarrow> jsval \<Rightarrow> bool" where
  "truthy numberToString JNull = False"
| "truthy numberToString (JBool b) = b"
| "truthy numberToString (JNum lit) = (numberToString lit \<noteq> js ''0'')"
| "truthy numberToString (JStr s) = (s \<noteq> [])"
| "truthy numberToString (JArr vs) = True"
| "truthy numberToString (JObj ms) = True"

text \<open>
  The string that \<open>text + v\<close> appends for a value \<open>v\<close>. An array prints its elements
  joined by commas, \<open>null\<close> elements as nothing. An object prints as
  \<open>[object Object]\<close>, unless it has a member named \<open>toString\<close>: that member hides the
  built-in method and is not callable, and the conversion throws a \<open>TypeError\<close>
  (\<open>None\<close>).
\<close>

fun to_string :: "(jsstring \<Rightarrow> jsstring) \<Rightarrow> jsval \<Rightarrow> jsstring option"
  and array_join :: "(jsstring \<Rightarrow> jsstring) \<Rightarrow> jsval list \<Rightarrow> jsstring option"
where
  "to_string numberToString JNull = Some (js ''null'')"
| "to_string numberToString (JBool b) = Some (if b then js ''true'' else js ''false'')"
| "to_string numberToString (JNum lit) = Some (numberToString lit)"
| "to_string numberToString (JStr s) = Some s"
| "to_string numberToString (JArr vs) = array_join numberToString vs"
| "to_string numberToString (JObj ms) =
     (if js ''toString'' \<in> set (map fst ms) then None else Some (js ''[object Object]''))"
| "array_join numberToString [] = Some []"
| "array_join numberToString (v # vs) =
     (case (if v = JNull then Some [] else to_string numberToString v) of
        None \<Rightarrow> None
      | Some str \<Rightarrow>
          if vs = [] then Some str
          else map_option (\<lambda>r. str @ js '','' @ r) (array_join numberToString vs))"

datatype js_error = SyntaxError | TypeError

text \<open>What \<open>console.error\<close> is called with.\<close>

datatype console_entry =
    FailedToParse js_error jsstring
  | ExchangeError jsstring

text \<open>
  Lines 243 to 252. \<open>choices_content\<close> is \<open>jsonData.choices?.[0]?.delta?.content\<close>;
  \<open>select_content\<close> is the value of \<open>content\<close> after the two tests, or the
  \<open>TypeError\<close> of reading \<open>jsonData.response\<close> when \<open>jsonData\<close> is \<open>null\<close>. Where
  the second test holds, every step of the path is neither \<open>undefined\<close> nor \<open>null\<close>,
  so the plain read \<open>jsonData.choices[0].delta.content\<close> of line 251 gives the value
  just tested.
\<close>

definition choices_content :: "jsval \<Rightarrow> jsval option" where
  "choices_content jsonData =
     opt_chain (get_field (js ''content''))
       (opt_chain (get_field (js ''delta''))
          (opt_chain get_index0 (get_field (js ''choices'') jsonData)))"

definition select_content :: "(jsstring \<Rightarrow> jsstring) \<Rightarrow> jsval \<Rightarrow> js_error + jsval" where
  "select_content numberToString jsonData =
     (if jsonData = JNull then Inl TypeError
      else
        (case get_field (js ''response'') jsonData of
           Some (JStr r) \<Rightarrow>
             if length r > 0 then Inr (JStr r)
             else (case choices_content jsonData of
                     None \<Rightarrow> Inr (JStr [])
                   | Some v \<Rightarrow> if truthy numberToString v then Inr v else Inr (JStr []))
         | _ \<Rightarrow>
             (case choices_content jsonData of
                None \<Rightarrow> Inr (JStr [])
              | Some v \<Rightarrow> if truthy numberToString v then Inr v else Inr (JStr []))))"

text \<open>
  \<open>processSseDataChunk(data, responseText, flushAssistantText)\<close>. The callback acts on
  a state \<open>'s\<close> of the caller's; the result is the returned text, that state, and the
  calls of \<open>console.error\<close>. Every exception of the body is caught by its \<open>catch\<close>; an
  exception of \<open>+=\<close> is thrown before the assignment, so the text is unchanged then.
  The callback itself is taken not to throw, as the one \<open>sendMessage\<close> passes.
\<close>

definition processSseDataChunk ::
  "(jsstring \<Rightarrow> jsstring) \<Rightarrow> jsstring \<Rightarrow> jsstring \<Rightarrow> ('s \<Rightarrow> 's) \<Rightarrow> 's
     \<Rightarrow> jsstring \<times> 's \<times> console_entry list" where
  "processSseDataChunk numberToString data responseText flushAssistantText s =
     (if data = js ''[DONE]'' then (responseText, s, [])
      else
        (case JSON_parse data of
           None \<Rightarrow> (responseText, s, [FailedToParse SyntaxError data])
         | Some jsonData \<Rightarrow>
             (case select_content numberToString jsonData of
                Inl e \<Rightarrow> (responseText, s, [FailedToParse e data])
              | Inr content \<Rightarrow>
                  if truthy numberToString content then
                    (case to_string numberToString content of
                       None \<Rightarrow> (responseText, s, [FailedToParse TypeError data])
                     | Some str \<Rightarrow> (responseText @ str, flushAssistantText s, []))
                  else (responseText, s, []))))"

text \<open>
  The text that one call appends: what \<open>+=\<close> prints for the \<open>content\<close> of line 255
  when that is truthy, and nothing when the payload does not parse, when the body
  throws, or when \<open>content\<close> is falsy.
\<close>

definition delta :: "(jsstring \<Rightarrow> jsstring) \<Rightarrow> jsstring \<Rightarrow> jsstring" where
  "delta numberToString data =
     (case JSON_parse data of
        None \<Rightarrow> []
      | Some jsonData \<Rightarrow>
          (case select_content numberToString jsonData of
             Inl e \<Rightarrow> []
           | Inr content \<Rightarrow>
               if truthy numberToString content then
                 (case to_string numberToString content of None \<Rightarrow> [] | Some str \<Rightarrow> str)
               else []))"

section \<open>The read loop of \<open>sendMessage\<close>\<close>

text \<open>
  The loop \<open>for (const data of parsed.events)\<close>, which both branches of the read loop
  run. The callback of the source is a closure over the caller's variable
  \<open>responseText\<close>, which is assigned only when \<open>processSseDataChunk\<close> has returned:
  \<open>flush\<close> takes the value that variable has during the call.
\<close>

fun process_events ::
  "(jsstring \<Rightarrow> jsstring) \<Rightarrow> (jsstring \<Rightarrow> 's \<Rightarrow> 's) \<Rightarrow> jsstring list \<Rightarrow> jsstring \<Rightarrow> 's
     \<Rightarrow> jsstring \<times> 's \<times> console_entry list" where
  "process_events numberToString flush [] responseText s = (responseText, s, [])"
| "process_events numberToString flush (data # rest) responseText s =
     (if data = js ''[DONE]'' then (responseText, s, [])
      else
        (case processSseDataChunk numberToString data responseText (flush responseText) s of
           (responseText', s', log) \<Rightarrow>
             (case process_events numberToString flush rest responseText' s' of
                (responseText'', s'', log') \<Rightarrow> (responseText'', s'', log @ log'))))"

text \<open>
  An exception object, as far as the source reads it: its name and its message.
\<close>

datatype exn = Exn (exn_name: jsstring) (exn_message: jsstring)

text \<open>
  The \<open>while (true)\<close> loop. The stream is the list of the texts that the decoder
  returns for the chunks read, and how it ends: \<open>None\<close> when \<open>read\<close> reports \<open>done\<close>,
  where the loop runs \<open>consumeSseEvents\<close> on the buffer and a terminator and leaves;
  \<open>Some e\<close> when \<open>read\<close> rejects with \<open>e\<close>, which leaves the loop by that exception.
\<close>

fun read_loop ::
  "(jsstring \<Rightarrow> jsstring) \<Rightarrow> (jsstring \<Rightarrow> 's \<Rightarrow> 's) \<Rightarrow> jsstring list \<Rightarrow> exn option
     \<Rightarrow> jsstring \<Rightarrow> jsstring \<Rightarrow> 's \<Rightarrow> (exn + jsstring) \<times> 's \<times> console_entry list" where
  "read_loop numberToString flush [] ending buffer responseText s =
     (case ending of
        Some e \<Rightarrow> (Inl e, s, [])
      | None \<Rightarrow>
          (case process_events numberToString flush
                  (fst (consumeSseEvents (buffer @ [LF, LF]))) responseText s of
             (responseText', s', log) \<Rightarrow> (Inr responseText', s', log)))"
| "read_loop numberToString flush (chunk # chunks) ending buffer responseText s =
     (let parsed = consumeSseEvents (buffer @ chunk)
      in case process_events numberToString flush (fst parsed) responseText s of
           (responseText', s', log) \<Rightarrow>
             (case read_loop numberToString flush chunks ending (snd parsed) responseText' s' of
                (result, s'', log') \<Rightarrow> (result, s'', log @ log')))"

text \<open>
  What the demuxer does in that loop, by itself: the value of \<open>parsed.events\<close> in each
  round, the last one being that of the end of the stream; and the value of \<open>buffer\<close>
  when the stream ends.
\<close>

fun emitted :: "jsstring list \<Rightarrow> jsstring \<Rightarrow> jsstring list list" where
  "emitted [] buffer = [fst (consumeSseEvents (buffer @ [LF, LF]))]"
| "emitted (chunk # chunks) buffer =
     fst (consumeSseEvents (buffer @ chunk))
       # emitted chunks (snd (consumeSseEvents (buffer @ chunk)))"

fun pending :: "jsstring list \<Rightarrow> jsstring \<Rightarrow> jsstring" where
  "pending [] buffer = buffer"
| "pending (chunk # chunks) buffer = pending chunks (snd (consumeSseEvents (buffer @ chunk)))"

text \<open>
  The same rounds seen from the accumulator: one run of the loop over the payloads for
  each batch, in order. Lemma \<open>read_loop_emitted\<close> shows that a stream that ends
  by \<open>done\<close> is processed so.
\<close>

fun process_batches ::
  "(jsstring \<Rightarrow> jsstring) \<Rightarrow> (jsstring \<Rightarrow> 's \<Rightarrow> 's) \<Rightarrow> jsstring list list \<Rightarrow> jsstring \<Rightarrow> 's
     \<Rightarrow> jsstring \<times> 's \<times> console_entry list" where
  "process_batches numberToString flush [] responseText s = (responseText, s, [])"
| "process_batches numberToString flush (events # batches) responseText s =
     (case process_events numberToString flush events responseText s of
        (responseText', s', log) \<Rightarrow>
          (case process_batches numberToString flush batches responseText' s' of
             (responseText'', s'', log') \<Rightarrow> (responseText'', s'', log @ log')))"

section \<open>The page and \<open>sendMessage\<close>\<close>

text \<open>
  The state that \<open>sendMessage\<close> reads and writes: the two module variables, the
  controls, the elements appended to \<open>chatMessages\<close> (each a \<open>div\<close> of some class
  around one paragraph of text), the bodies posted to \<open>/api/chat\<close> and the console.
  The scroll position, the focus and the height of the text area are left out.
\<close>

record message =
  role :: jsstring
  content :: jsstring

record element =
  className :: jsstring
  textContent :: jsstring

record page =
  chatHistory :: "message list"
  isProcessing :: bool
  userInput_value :: jsstring
  userInput_disabled :: bool
  sendButton_disabled :: bool
  typingIndicator_visible :: bool
  chatMessages :: "element list"
  requests :: "message list list"
  console :: "console_entry list"

text \<open>
  What the awaited calls give: \<open>fetch\<close> rejects, or resolves to a response with a
  status, a status text and a body, which is \<open>null\<close> or a stream.
\<close>

datatype reply =
    Rejected exn
  | Response nat jsstring "(jsstring list \<times> exn option) option"

function decimal :: "nat \<Rightarrow> jsstring" where
  "decimal n = (if n < 10 then [48 + n] else decimal (n div 10) @ [48 + n mod 10])"
  by pat_completeness auto
termination
  by (relation "measure (\<lambda>n. n)") auto

declare decimal.simps [simp del]

definition addMessageToChat :: "jsstring \<Rightarrow> jsstring \<Rightarrow> page \<Rightarrow> page" where
  "addMessageToChat r c p =
     p\<lparr>chatMessages := chatMessages p
          @ [\<lparr>className = js ''message '' @ r @ js ''-message'', textContent = c\<rparr>]\<rparr>"

text \<open>
  \<open>createAssistantMessageElement\<close> appends an empty assistant element; the paragraph it
  returns is found again by the element's position.
\<close>

definition createAssistantMessageElement :: "page \<Rightarrow> nat \<times> page" where
  "createAssistantMessageElement p =
     (length (chatMessages p),
      p\<lparr>chatMessages := chatMessages p
           @ [\<lparr>className = js ''message assistant-message'', textContent = []\<rparr>]\<rparr>)"

text \<open>
  \<open>flushAssistantText\<close>, for the element at position \<open>i\<close> and the value that the
  variable \<open>responseText\<close> of \<open>sendMessage\<close> has when the callback runs.
\<close>

definition flushAssistantText :: "nat \<Rightarrow> jsstring \<Rightarrow> page \<Rightarrow> page" where
  "flushAssistantText i responseText p =
     (if i < length (chatMessages p)
      then p\<lparr>chatMessages := (chatMessages p)[i := (chatMessages p ! i)\<lparr>textContent := responseText\<rparr>]\<rparr>
      else p)"

text \<open>
  \<open>sendMessage\<close> up to its first \<open>await\<close>: \<open>None\<close> when it returns at the guard of
  line 60, else the page at the moment the request has been issued.
\<close>

definition sendMessage_start :: "page \<Rightarrow> (nat \<times> page) option" where
  "sendMessage_start p =
     (let message = trim (userInput_value p)
      in if message = [] \<or> isProcessing p then None
         else
           (let p1 = p\<lparr>isProcessing := True, userInput_disabled := True,
                       sendButton_disabled := True\<rparr>;
                p2 = addMessageToChat (js ''user'') message p1;
                p3 = p2\<lparr>userInput_value := [], typingIndicator_visible := True\<rparr>;
                p4 = p3\<lparr>chatHistory := chatHistory p3 @ [\<lparr>role = js ''user'', content = message\<rparr>]\<rparr>;
                (i, p5) = createAssistantMessageElement p4
            in Some (i, p5\<lparr>requests := requests p5 @ [chatHistory p5]\<rparr>)))"

text \<open>The \<open>try\<close> block from the answer of \<open>fetch\<close> on: the exception it ends by, or the page.\<close>

definition exchange :: "(jsstring \<Rightarrow> jsstring) \<Rightarrow> reply \<Rightarrow> nat \<Rightarrow> page \<Rightarrow> exn option \<times> page" where
  "exchange numberToString r i p =
     (case r of
        Rejected e \<Rightarrow> (Some e, p)
      | Response status statusText body \<Rightarrow>
          if \<not> (200 \<le> status \<and> status \<le> 299) then
            (Some (Exn (js ''Error'')
               (js ''API request to /api/chat failed with status '' @ decimal status @ js '': ''
                  @ statusText @ js ''. Please try again or check your connection.'')), p)
          else
            (case body of
               None \<Rightarrow> (Some (Exn (js ''Error'') (js ''Response body is null'')), p)
             | Some (chunks, ending) \<Rightarrow>
                 (case read_loop numberToString (flushAssistantText i) chunks ending [] [] p of
                    (result, p', log) \<Rightarrow>
                      (let p'' = p'\<lparr>console := console p' @ log\<rparr>
                       in case result of
                            Inl e \<Rightarrow> (Some e, p'')
                          | Inr responseText \<Rightarrow>
                              (None, p''\<lparr>chatHistory := chatHistory p''
                                 @ [\<lparr>role = js ''assistant'', content = responseText\<rparr>]\<rparr>)))))"

text \<open>The \<open>catch\<close> and \<open>finally\<close> blocks.\<close>

definition sendMessage_finish :: "exn option \<times> page \<Rightarrow> page" where
  "sendMessage_finish x =
     (case x of
        (thrown, p) \<Rightarrow>
          (let p1 = (case thrown of
                       None \<Rightarrow> p
                     | Some e \<Rightarrow>
                         (let errorMessage =
                                (if exn_message e \<noteq> [] then exn_message e else exn_name e)
                          in addMessageToChat (js ''assistant'')
                               (js ''Sorry, there was an error processing your request: ''
                                  @ errorMessage)
                               (p\<lparr>console := console p @ [ExchangeError (exn_message e)]\<rparr>)))
           in p1\<lparr>typingIndicator_visible := False, isProcessing := False,
                  userInput_disabled := False, sendButton_disabled := False\<rparr>))"

text \<open>One whole call of \<open>sendMessage\<close>, given what the network answers.\<close>

definition sendMessage :: "(jsstring \<Rightarrow> jsstring) \<Rightarrow> reply \<Rightarrow> page \<Rightarrow> page" where
  "sendMessage numberToString r p =
     (case sendMessage_start p of
        None \<Rightarrow> p
      | Some (i, p') \<Rightarrow> sendMessage_finish (exchange numberToString r i p'))"

text \<open>The page as the script leaves it when it is loaded, with a given text typed.\<close>

definition initial_page :: "jsstring \<Rightarrow> page" where
  "initial_page typed =
     \<lparr>chatHistory =
        [\<lparr>role = js ''assistant'',
          content = js ''Hello! I'' @ [39] @ js ''m an LLM chat app powered by Cloudflare Workers AI. How can I help you today?''\<rparr>],
      isProcessing = False,
      userInput_value = typed,
      userInput_disabled = False,
      sendButton_disabled = False,
      typingIndicator_visible = False,
      chatMessages = [],
      requests = [],
      console = []\<rparr>"

section \<open>The bound of the parser is never reached\<close>

lemma parse_chars_shorter:
  "parse_chars cs = Some (str, r) \<Longrightarrow> length r < length cs"
proof (induction cs arbitrary: str r rule: parse_chars.induct)
  case 1
  then show ?case by simp
next
  case (2 c cs)
  show ?case
  proof (cases "c = 34")
    case True
    with "2.prems" show ?thesis by simp
  next
    case c34: False
    show ?thesis
    proof (cases "c = 92")
      case False
      with c34 "2.prems" obtain str' where "parse_chars cs = Some (str', r)"
        by (auto split: if_splits)
      with "2.IH"(3)[OF c34 False] "2.prems" c34 False show ?thesis
        by (fastforce split: if_splits)
    next
      case True
      show ?thesis
      proof (cases cs)
        case Nil
        with True c34 "2.prems" show ?thesis by simp
      next
        case (Cons e es)
        show ?thesis
        proof (cases "e = 117")
          case False
          with True c34 Cons "2.prems" obtain u str' where "escape e = Some u" "parse_chars es = Some (str', r)"
            by (auto split: option.splits)
          with "2.IH"(2)[OF c34 True Cons False] Cons show ?thesis
            by fastforce
        next
          case e: True
          with True c34 Cons "2.prems" obtain h1 h2 h3 h4 rest u str'
            where es: "es = h1 # h2 # h3 # h4 # rest" and "hex4 h1 h2 h3 h4 = Some u"
              and "parse_chars rest = Some (str', r)"
            by (auto split: option.splits list.splits)
          with "2.IH"(1)[OF c34 True Cons e] Cons show ?thesis
            by fastforce
        qed
      qed
    qed
  qed
qed

lemma number_length_pos:
  "number_length s = Some k \<Longrightarrow> 0 < k \<and> s \<noteq> []"
  by (auto simp add: number_length_def int_length_def Let_def
        split: option.splits list.splits if_splits)

lemma parse_number_shorter:
  "parse_number s = Some (lit, r) \<Longrightarrow> length r < length s"
  using number_length_pos[of s] by (auto simp add: parse_number_def)

lemma length_skip_ws: "length (skip_ws s) \<le> length s"
  by (simp add: skip_ws_def length_dropWhile_le)

lemma parse_value_Suc:
  "parse_value (Suc n) s =
     (case s of
        [] \<Rightarrow> None
      | c # cs \<Rightarrow>
          if c = 123 then
            (if startsWith (skip_ws cs) [125] then Some (JObj [], drop 1 (skip_ws cs))
             else map_option (\<lambda>(ms, r). (JObj ms, r)) (parse_members n cs))
          else if c = 91 then
            (if startsWith (skip_ws cs) [93] then Some (JArr [], drop 1 (skip_ws cs))
             else map_option (\<lambda>(vs, r). (JArr vs, r)) (parse_elements n cs))
          else if c = 34 then map_option (\<lambda>(str, r). (JStr str, r)) (parse_chars cs)
          else if startsWith s (js ''true'') then Some (JBool True, drop 4 s)
          else if startsWith s (js ''false'') then Some (JBool False, drop 5 s)
          else if startsWith s (js ''null'') then Some (JNull, drop 4 s)
          else map_option (\<lambda>(lit, r). (JNum lit, r)) (parse_number s))"
  unfolding parse_value.simps[of "Suc n" s] diff_Suc_1 by simp

lemma parse_elements_Suc:
  "parse_elements (Suc n) s =
     (case parse_value n (skip_ws s) of
        None \<Rightarrow> None
      | Some (v, r) \<Rightarrow>
          if startsWith (skip_ws r) [44]
          then map_option (\<lambda>(vs, r'). (v # vs, r')) (parse_elements n (drop 1 (skip_ws r)))
          else if startsWith (skip_ws r) [93] then Some ([v], drop 1 (skip_ws r))
          else None)"
  unfolding parse_elements.simps[of "Suc n" s] diff_Suc_1 by simp

lemma parse_members_Suc:
  "parse_members (Suc n) s =
     (if \<not> startsWith (skip_ws s) [34] then None
      else
        (case parse_chars (drop 1 (skip_ws s)) of
           None \<Rightarrow> None
         | Some (key, r) \<Rightarrow>
             if \<not> startsWith (skip_ws r) [58] then None
             else
               (case parse_value n (skip_ws (drop 1 (skip_ws r))) of
                  None \<Rightarrow> None
                | Some (v, r') \<Rightarrow>
                    if startsWith (skip_ws r') [44]
                    then map_option (\<lambda>(ms, r''). ((key, v) # ms, r''))
                           (parse_members n (drop 1 (skip_ws r')))
                    else if startsWith (skip_ws r') [125]
                    then Some ([(key, v)], drop 1 (skip_ws r'))
                    else None)))"
  unfolding parse_members.simps[of "Suc n" s] diff_Suc_1 by simp

lemma parse_0:
  "parse_value 0 s = None" "parse_elements 0 s = None" "parse_members 0 s = None"
  by (simp_all add: parse_value.simps parse_elements.simps parse_members.simps)

lemma startsWith_nonempty: "startsWith s [c] \<Longrightarrow> s \<noteq> []"
  by (auto simp add: startsWith_def)

lemma drop1_skip_ws_shorter:
  "startsWith (skip_ws s) [c] \<Longrightarrow> length (drop 1 (skip_ws s)) < length s"
  using length_skip_ws[of s] startsWith_nonempty[of "skip_ws s" c]
  by (cases "skip_ws s") auto

lemma value_step_shorter:
  assumes M: "\<And>s ms r. parse_members n s = Some (ms, r) \<Longrightarrow> length r < length s"
    and E: "\<And>s vs r. parse_elements n s = Some (vs, r) \<Longrightarrow> length r < length s"
    and V: "parse_value (Suc n) s = Some (v, r)"
  shows "length r < length s"
proof (cases s)
  case Nil
  with V show ?thesis by (simp add: parse_value_Suc)
next
  case (Cons c cs)
  have ws: "length (drop 1 (skip_ws cs)) \<le> length cs"
    using length_skip_ws[of cs] by simp
  from V Cons ws show ?thesis
    by (auto simp add: parse_value_Suc split: if_splits
          dest!: M E parse_chars_shorter parse_number_shorter)
qed

lemma elements_step_shorter:
  assumes V: "\<And>s v r. parse_value n s = Some (v, r) \<Longrightarrow> length r < length s"
    and E: "\<And>s vs r. parse_elements n s = Some (vs, r) \<Longrightarrow> length r < length s"
    and S: "parse_elements (Suc n) s = Some (vs, r)"
  shows "length r < length s"
proof -
  from S obtain v r1 where v: "parse_value n (skip_ws s) = Some (v, r1)"
    by (auto simp add: parse_elements_Suc split: option.splits)
  from V[OF v] length_skip_ws[of s] have r1: "length r1 < length s" by simp
  have d: "length (drop 1 (skip_ws r1)) \<le> length r1"
    using length_skip_ws[of r1] by simp
  from S v r1 d show ?thesis
    by (auto simp add: parse_elements_Suc split: if_splits dest!: E)
qed

lemma members_step_shorter:
  assumes V: "\<And>s v r. parse_value n s = Some (v, r) \<Longrightarrow> length r < length s"
    and M: "\<And>s ms r. parse_members n s = Some (ms, r) \<Longrightarrow> length r < length s"
    and S: "parse_members (Suc n) s = Some (ms, r)"
  shows "length r < length s"
proof -
  from S obtain key r0 where k: "parse_chars (drop 1 (skip_ws s)) = Some (key, r0)"
    by (auto simp add: parse_members_Suc split: option.splits if_splits)
  from parse_chars_shorter[OF k] length_skip_ws[of s] have r0: "length r0 < length s" by simp
  from S k obtain v r1 where v: "parse_value n (skip_ws (drop 1 (skip_ws r0))) = Some (v, r1)"
    by (auto simp add: parse_members_Suc split: option.splits if_splits)
  have "length (skip_ws (drop 1 (skip_ws r0))) \<le> length r0"
    using length_skip_ws[of r0] length_skip_ws[of "drop 1 (skip_ws r0)"] by simp
  with V[OF v] r0 have r1: "length r1 < length s" by simp
  have d: "length (drop 1 (skip_ws r1)) \<le> length r1"
    using length_skip_ws[of r1] by simp
  from S k v r1 d show ?thesis
    by (auto simp add: parse_members_Suc split: if_splits dest!: M)
qed

lemma parse_shorter_all:
  "(\<forall>s v r. parse_value n s = Some (v, r) \<longrightarrow> length r < length s)
   \<and> (\<forall>s vs r. parse_elements n s = Some (vs, r) \<longrightarrow> length r < length s)
   \<and> (\<forall>s ms r. parse_members n s = Some (ms, r) \<longrightarrow> length r < length s)"
proof (induction n)
  case 0
  show ?case by (simp add: parse_0)
next
  case (Suc n)
  then show ?case
    using value_step_shorter[of n] elements_step_shorter[of n] members_step_shorter[of n]
    by blast
qed

lemma parse_value_shorter: "parse_value n s = Some (v, r) \<Longrightarrow> length r < length s"
  using parse_shorter_all[of n] by blast

lemma parse_value_Nil: "parse_value m [] = None"
  by (simp add: parse_value.simps)

lemma value_step_fuel:
  assumes M: "\<And>s m. 2 * length s + 1 \<le> n \<Longrightarrow> 2 * length s + 1 \<le> m \<Longrightarrow>
                parse_members n s = parse_members m s"
    and E: "\<And>s m. 2 * length s + 1 \<le> n \<Longrightarrow> 2 * length s + 1 \<le> m \<Longrightarrow>
                parse_elements n s = parse_elements m s"
    and n: "2 * length s \<le> Suc n" and m: "2 * length s \<le> m"
  shows "parse_value (Suc n) s = parse_value m s"
proof (cases s)
  case Nil
  then show ?thesis by (simp add: parse_value_Nil)
next
  case (Cons c cs)
  with m obtain m' where m': "m = Suc m'"
    by (cases m) auto
  from Cons n m m' have "2 * length cs + 1 \<le> n" "2 * length cs + 1 \<le> m'"
    by auto
  then have "parse_members n cs = parse_members m' cs" "parse_elements n cs = parse_elements m' cs"
    using M E by blast+
  with Cons m' show ?thesis
    by (simp add: parse_value_Suc)
qed

lemma elements_step_fuel:
  assumes V: "\<And>s m. 2 * length s \<le> n \<Longrightarrow> 2 * length s \<le> m \<Longrightarrow>
                parse_value n s = parse_value m s"
    and E: "\<And>s m. 2 * length s + 1 \<le> n \<Longrightarrow> 2 * length s + 1 \<le> m \<Longrightarrow>
                parse_elements n s = parse_elements m s"
    and n: "2 * length s + 1 \<le> Suc n" and m: "2 * length s + 1 \<le> m"
  shows "parse_elements (Suc n) s = parse_elements m s"
proof -
  from m obtain m' where m': "m = Suc m'"
    by (cases m) auto
  from n m m' length_skip_ws[of s]
  have v: "parse_value n (skip_ws s) = parse_value m' (skip_ws s)"
    by (intro V) auto
  show ?thesis
  proof (cases "parse_value m' (skip_ws s)")
    case None
    with v m' show ?thesis by (simp add: parse_elements_Suc)
  next
    case (Some x)
    obtain w r where x: "x = (w, r)" by (cases x)
    from Some x parse_value_shorter length_skip_ws[of s] have r: "length r < length s"
      by fastforce
    have "parse_elements n (drop 1 (skip_ws r)) = parse_elements m' (drop 1 (skip_ws r))"
      if "startsWith (skip_ws r) [44]"
      using drop1_skip_ws_shorter[OF that] r n m m' by (intro E) auto
    with v Some x m' show ?thesis
      by (simp add: parse_elements_Suc)
  qed
qed

lemma members_step_fuel:
  assumes V: "\<And>s m. 2 * length s \<le> n \<Longrightarrow> 2 * length s \<le> m \<Longrightarrow>
                parse_value n s = parse_value m s"
    and M: "\<And>s m. 2 * length s + 1 \<le> n \<Longrightarrow> 2 * length s + 1 \<le> m \<Longrightarrow>
                parse_members n s = parse_members m s"
    and n: "2 * length s + 1 \<le> Suc n" and m: "2 * length s + 1 \<le> m"
  shows "parse_members (Suc n) s = parse_members m s"
proof -
  from m obtain m' where m': "m = Suc m'"
    by (cases m) auto
  show ?thesis
  proof (cases "parse_chars (drop 1 (skip_ws s))")
    case None
    with m' show ?thesis by (simp add: parse_members_Suc)
  next
    case (Some x)
    obtain key r0 where x: "x = (key, r0)" by (cases x)
    from Some x parse_chars_shorter[of "drop 1 (skip_ws s)" key r0] length_skip_ws[of s]
    have r0: "length r0 < length s"
      by simp
    let ?s1 = "skip_ws (drop 1 (skip_ws r0))"
    have s1: "length ?s1 \<le> length r0"
      using length_skip_ws[of r0] length_skip_ws[of "drop 1 (skip_ws r0)"] by simp
    with r0 n m m' have v: "parse_value n ?s1 = parse_value m' ?s1"
      by (intro V) auto
    have rest: "parse_members n (drop 1 (skip_ws r1)) = parse_members m' (drop 1 (skip_ws r1))"
      if "parse_value m' ?s1 = Some (w, r1)" "startsWith (skip_ws r1) [44]" for w r1
      using drop1_skip_ws_shorter[OF that(2)] parse_value_shorter[OF that(1)] s1 r0 n m m'
      by (intro M) auto
    show ?thesis
    proof (cases "parse_value m' ?s1")
      case None
      with v Some x m' show ?thesis by (simp add: parse_members_Suc)
    next
      case (Some y)
      obtain w r1 where y: "y = (w, r1)" by (cases y)
      from rest[of w r1] Some y v \<open>parse_chars (drop 1 (skip_ws s)) = Some x\<close> x m'
      show ?thesis
        by (simp add: parse_members_Suc)
    qed
  qed
qed

lemma parse_fuel_all:
  "(\<forall>s m. 2 * length s \<le> n \<and> 2 * length s \<le> m \<longrightarrow> parse_value n s = parse_value m s)
   \<and> (\<forall>s m. 2 * length s + 1 \<le> n \<and> 2 * length s + 1 \<le> m \<longrightarrow>
          parse_elements n s = parse_elements m s)
   \<and> (\<forall>s m. 2 * length s + 1 \<le> n \<and> 2 * length s + 1 \<le> m \<longrightarrow>
          parse_members n s = parse_members m s)"
proof (induction n)
  case 0
  show ?case by (simp add: parse_value_Nil)
next
  case (Suc n)
  then show ?case
    using value_step_fuel[of n] elements_step_fuel[of n] members_step_fuel[of n]
    by blast
qed

lemma JSON_parse_fuel:
  assumes "2 * length t + 2 \<le> n"
  shows "parse_value n (skip_ws t) = parse_value (2 * length t + 2) (skip_ws t)"
proof -
  from assms length_skip_ws[of t]
  have "2 * length (skip_ws t) \<le> n" "2 * length (skip_ws t) \<le> 2 * length t + 2"
    by auto
  then show ?thesis
    using parse_fuel_all[of n] by blast
qed

section \<open>Properties of the demuxer\<close>

lemma indexOf_None_no_occurrence:
  "indexOf pat s = None \<Longrightarrow> s \<noteq> xs @ pat @ ys"
proof (induction s arbitrary: xs)
  case Nil
  then show ?case by (auto split: if_splits)
next
  case (Cons c cs)
  from Cons.prems have np: "take (length pat) (c # cs) \<noteq> pat" and rec: "indexOf pat cs = None"
    by (auto split: if_splits)
  show ?case
  proof (cases xs)
    case Nil
    show ?thesis
    proof
      assume "c # cs = xs @ pat @ ys"
      with Nil have "c # cs = pat @ ys" by simp
      then have "take (length pat) (c # cs) = pat" by (metis append_eq_conv_conj)
      with np show False by simp
    qed
  next
    case (Cons x xs')
    show ?thesis
    proof
      assume "c # cs = xs @ pat @ ys"
      with Cons have "cs = xs' @ pat @ ys" by simp
      with Cons.IH[OF rec, of xs'] show False by simp
    qed
  qed
qed

lemma take_prefix_append: "n \<le> length xs \<Longrightarrow> take n (xs @ ys) = take n xs"
  by simp

lemma indexOf_append:
  "indexOf pat a = Some i \<Longrightarrow> indexOf pat (a @ b) = Some i"
proof (induction a arbitrary: i)
  case Nil
  then show ?case by (cases b) (auto split: if_splits)
next
  case (Cons c cs)
  show ?case
  proof (cases "take (length pat) (c # cs) = pat")
    case True
    then have "length (take (length pat) (c # cs)) = length pat" by simp
    then have "length pat \<le> length (c # cs)" by simp
    then have "take (length pat) (c # cs @ b) = take (length pat) (c # cs)"
      using take_prefix_append[of "length pat" "c # cs" b] by simp
    with True Cons.prems show ?thesis by simp
  next
    case False
    with Cons.prems obtain j where j: "indexOf pat cs = Some j" "i = Suc j" by auto
    from indexOf_bound[OF j(1)] have "length pat \<le> length (c # cs)" by simp
    then have "take (length pat) (c # cs @ b) = take (length pat) (c # cs)"
      using take_prefix_append[of "length pat" "c # cs" b] by simp
    with False j Cons.IH[OF j(1)] show ?thesis by simp
  qed
qed

lemma sse_loop_None:
  "indexOf [LF, LF] n = None \<Longrightarrow> sse_loop n acc = (acc, n)"
  by (subst sse_loop.simps) simp

lemma sse_loop_Some:
  "indexOf [LF, LF] n = Some i \<Longrightarrow>
   sse_loop n acc =
     sse_loop (drop (i + 2) n)
       (if dataLines_of (split_str LF (take i n)) = [] then acc
        else acc @ [join [LF] (dataLines_of (split_str LF (take i n)))])"
  by (subst sse_loop.simps) (simp add: Let_def)

lemma sse_loop_acc:
  "sse_loop n acc = (acc @ fst (sse_loop n []), snd (sse_loop n []))"
proof (induction n arbitrary: acc rule: length_induct)
  case (1 n)
  show ?case
  proof (cases "indexOf [LF, LF] n")
    case None
    then show ?thesis by (simp add: sse_loop_None)
  next
    case (Some i)
    let ?n' = "drop (i + 2) n"
    from indexOf_bound[OF Some] have "length ?n' < length n" by simp
    with 1 have IH: "\<And>acc. sse_loop ?n' acc = (acc @ fst (sse_loop ?n' []), snd (sse_loop ?n' []))"
      by blast
    let ?d = "dataLines_of (split_str LF (take i n))"
    let ?new = "if ?d = [] then [] else [join [LF] ?d]"
    have step: "sse_loop n acc = sse_loop ?n' (acc @ ?new)" for acc
      by (simp add: sse_loop_Some[OF Some])
    have "sse_loop n acc = ((acc @ ?new) @ fst (sse_loop ?n' []), snd (sse_loop ?n' []))"
      by (simp only: step[of acc] IH[of "acc @ ?new"])
    moreover have "sse_loop n [] = (?new @ fst (sse_loop ?n' []), snd (sse_loop ?n' []))"
      using step[of "[]"] IH[of ?new] by simp
    ultimately show ?thesis by simp
  qed
qed

lemma sse_loop_append:
  "sse_loop (a @ b) acc = sse_loop (snd (sse_loop a acc) @ b) (fst (sse_loop a acc))"
proof (induction a arbitrary: acc rule: length_induct)
  case (1 a)
  show ?case
  proof (cases "indexOf [LF, LF] a")
    case None
    then show ?thesis by (simp add: sse_loop_None)
  next
    case (Some i)
    let ?a' = "drop (i + 2) a"
    from indexOf_bound[OF Some] have le: "i + 2 \<le> length a" by simp
    then have "length ?a' < length a" by simp
    with 1 have IH: "\<And>acc. sse_loop (?a' @ b) acc = sse_loop (snd (sse_loop ?a' acc) @ b) (fst (sse_loop ?a' acc))"
      by blast
    from le have t: "take i (a @ b) = take i a" and d: "drop (i + 2) (a @ b) = ?a' @ b"
      by simp_all
    show ?thesis
      by (simp only: sse_loop_Some[OF Some] sse_loop_Some[OF indexOf_append[OF Some, of b]] t d IH)
  qed
qed

lemma sse_loop_rest_no_terminator:
  "indexOf [LF, LF] (snd (sse_loop n acc)) = None"
proof (induction n arbitrary: acc rule: length_induct)
  case (1 n)
  show ?case
  proof (cases "indexOf [LF, LF] n")
    case None
    then show ?thesis by (simp add: sse_loop_None)
  next
    case (Some i)
    from indexOf_bound[OF Some] have "length (drop (i + 2) n) < length n" by simp
    with 1 show ?thesis by (simp add: sse_loop_Some[OF Some])
  qed
qed

lemma sse_loop_rest_set:
  "set (snd (sse_loop n acc)) \<subseteq> set n"
proof (induction n arbitrary: acc rule: length_induct)
  case (1 n)
  show ?case
  proof (cases "indexOf [LF, LF] n")
    case None
    then show ?thesis by (simp add: sse_loop_None)
  next
    case (Some i)
    from indexOf_bound[OF Some] have "length (drop (i + 2) n) < length n" by simp
    with 1 have "\<And>acc. set (snd (sse_loop (drop (i + 2) n) acc)) \<subseteq> set (drop (i + 2) n)" by blast
    moreover have "set (drop (i + 2) n) \<subseteq> set n" by (rule set_drop_subset)
    ultimately show ?thesis by (simp only: sse_loop_Some[OF Some]) blast
  qed
qed

lemma strip_cr_append: "strip_cr (a @ b) = strip_cr a @ strip_cr b"
  by (simp add: strip_cr_def)

lemma strip_cr_id: "CR \<notin> set s \<Longrightarrow> strip_cr s = s"
  by (auto simp add: strip_cr_def filter_id_conv)

lemma strip_cr_free: "CR \<notin> set (strip_cr s)"
  by (simp add: strip_cr_def)

lemma strip_cr_idem: "strip_cr (strip_cr s) = strip_cr s"
  by (simp add: strip_cr_def)

lemma strip_cr_LFLF: "strip_cr [LF, LF] = [LF, LF]"
  by (simp add: strip_cr_def LF_def CR_def)

lemma consume_buffer_cr_free: "strip_cr (snd (consumeSseEvents b)) = snd (consumeSseEvents b)"
proof -
  have "CR \<notin> set (snd (sse_loop (strip_cr b) []))"
    using sse_loop_rest_set[of "strip_cr b" "[]"] strip_cr_free[of b] by blast
  then show ?thesis by (simp add: consumeSseEvents_def strip_cr_id)
qed

lemma consume_append:
  "consumeSseEvents (a @ b) =
     (fst (consumeSseEvents a) @ fst (consumeSseEvents (snd (consumeSseEvents a) @ b)),
      snd (consumeSseEvents (snd (consumeSseEvents a) @ b)))"
proof -
  let ?A = "strip_cr a" and ?B = "strip_cr b"
  let ?r = "snd (sse_loop ?A [])"
  have r: "strip_cr ?r = ?r"
    using consume_buffer_cr_free[of a] by (simp add: consumeSseEvents_def)
  have "sse_loop (?A @ ?B) [] = sse_loop (?r @ ?B) (fst (sse_loop ?A []))"
    by (rule sse_loop_append)
  also have "\<dots> = (fst (sse_loop ?A []) @ fst (sse_loop (?r @ ?B) []), snd (sse_loop (?r @ ?B) []))"
    by (rule sse_loop_acc)
  finally show ?thesis
    by (simp add: consumeSseEvents_def strip_cr_append r)
qed

lemma emitted_concat:
  "concat (emitted chunks buffer) = fst (consumeSseEvents (buffer @ concat chunks @ [LF, LF]))"
proof (induction chunks arbitrary: buffer)
  case Nil
  then show ?case by simp
next
  case (Cons chunk chunks)
  have "consumeSseEvents ((buffer @ chunk) @ (concat chunks @ [LF, LF])) =
     (fst (consumeSseEvents (buffer @ chunk))
        @ fst (consumeSseEvents (snd (consumeSseEvents (buffer @ chunk)) @ concat chunks @ [LF, LF])),
      snd (consumeSseEvents (snd (consumeSseEvents (buffer @ chunk)) @ concat chunks @ [LF, LF])))"
    by (rule consume_append)
  then show ?case by (simp add: Cons.IH)
qed

lemma indexOf_record:
  "indexOf [LF, LF] (r @ [LF]) = None \<Longrightarrow> indexOf [LF, LF] (r @ [LF, LF] @ x) = Some (length r)"
proof (induction r)
  case Nil
  then show ?case by simp
next
  case (Cons c cs)
  from Cons.prems have np: "take 2 (c # cs @ [LF]) \<noteq> [LF, LF]"
    and rec: "indexOf [LF, LF] (cs @ [LF]) = None"
    by (auto split: if_splits)
  have "take 2 (c # cs @ [LF, LF] @ x) = take 2 (c # cs @ [LF])"
    by (cases cs) (simp_all add: numeral_2_eq_2)
  with np Cons.IH[OF rec] show ?case by simp
qed

lemma dataLines_of_empty:
  "(dataLines_of ls = []) = (\<forall>l \<in> set ls. \<not> startsWith l (js ''data:''))"
  by (induction ls) auto

lemma consume_record:
  assumes "indexOf [LF, LF] (strip_cr r @ [LF]) = None"
  shows "consumeSseEvents (r @ [LF, LF] @ rest) =
     ((if dataLines_of (split_str LF (strip_cr r)) = [] then []
       else [join [LF] (dataLines_of (split_str LF (strip_cr r)))])
        @ fst (consumeSseEvents rest),
      snd (consumeSseEvents rest))"
proof -
  let ?R = "strip_cr r" and ?X = "strip_cr rest"
  let ?d = "dataLines_of (split_str LF ?R)"
  have n: "strip_cr (r @ [LF, LF] @ rest) = ?R @ [LF, LF] @ ?X"
    by (simp only: strip_cr_append strip_cr_LFLF)
  have i: "indexOf [LF, LF] (?R @ [LF, LF] @ ?X) = Some (length ?R)"
    using assms by (rule indexOf_record)
  have "consumeSseEvents (r @ [LF, LF] @ rest) = sse_loop (?R @ [LF, LF] @ ?X) []"
    by (simp only: consumeSseEvents_def n)
  also have "\<dots> = sse_loop ?X (if ?d = [] then [] else [] @ [join [LF] ?d])"
    using sse_loop_Some[OF i, of "[]"] by simp
  also have "\<dots> = ((if ?d = [] then [] else [join [LF] ?d]) @ fst (sse_loop ?X []), snd (sse_loop ?X []))"
    using sse_loop_acc[of ?X "if ?d = [] then [] else [] @ [join [LF] ?d]"] by simp
  finally show ?thesis
    by (simp add: consumeSseEvents_def)
qed

text \<open>
  Claim C1 (chunk-split invariance). Two ways of cutting the same text into chunks make
  the read loop's demuxer emit the same sequence of payloads: the payloads of all rounds
  of \<open>consumeSseEvents\<close> on the carried buffer, followed by those of the round at the
  end of the stream on the buffer and a terminator. By \<open>emitted_concat\<close> that
  sequence is the one a single call gives on the whole text and a terminator.
\<close>

theorem chunk_split_invariance:
  "concat chunks = concat chunks' \<Longrightarrow> concat (emitted chunks []) = concat (emitted chunks' [])"
  by (simp add: emitted_concat)

lemmas demux_eval = consumeSseEvents_def sse_loop.simps js_def LF_def CR_def strip_cr_def
  startsWith_def trimStart_def isWhiteSpace_def

theorem chunk_split_invariance_witness:
  "concat [js ''data: {\"respo'',
           js ''nse\":\"Hel\"}'' @ [LF, LF] @ js ''data: {\"response\":\"lo\"}'' @ [LF, LF]]
     = concat [js ''da'', js ''ta: {\"response\":\"Hel\"}'' @ [LF],
               [LF] @ js ''data: {\"response\":\"lo\"}'' @ [LF], [LF]]
   \<and> concat (emitted [js ''data: {\"respo'',
           js ''nse\":\"Hel\"}'' @ [LF, LF] @ js ''data: {\"response\":\"lo\"}'' @ [LF, LF]] [])
     = concat (emitted [js ''da'', js ''ta: {\"response\":\"Hel\"}'' @ [LF],
               [LF] @ js ''data: {\"response\":\"lo\"}'' @ [LF], [LF]] [])
   \<and> concat (emitted [js ''da'', js ''ta: {\"response\":\"Hel\"}'' @ [LF],
               [LF] @ js ''data: {\"response\":\"lo\"}'' @ [LF], [LF]] [])
     = [js ''{\"response\":\"Hel\"}'', js ''{\"response\":\"lo\"}'']"
proof -
  have h: "concat [js ''data: {\"respo'',
           js ''nse\":\"Hel\"}'' @ [LF, LF] @ js ''data: {\"response\":\"lo\"}'' @ [LF, LF]]
     = concat [js ''da'', js ''ta: {\"response\":\"Hel\"}'' @ [LF],
               [LF] @ js ''data: {\"response\":\"lo\"}'' @ [LF], [LF]]"
    by (simp add: js_def)
  have v: "concat (emitted [js ''da'', js ''ta: {\"response\":\"Hel\"}'' @ [LF],
               [LF] @ js ''data: {\"response\":\"lo\"}'' @ [LF], [LF]] [])
     = [js ''{\"response\":\"Hel\"}'', js ''{\"response\":\"lo\"}'']"
    by (simp add: demux_eval)
  show ?thesis
    using h v chunk_split_invariance[OF h] by simp
qed

text \<open>
  Claim C6 (exhaustive extraction). The buffer that \<open>consumeSseEvents\<close> returns holds
  no two consecutive line feeds: \<open>indexOf\<close> finds none in it, and it cannot be cut
  into a part before and a part after such a pair.
\<close>

theorem exhaustive_extraction:
  "indexOf [LF, LF] (snd (consumeSseEvents buffer)) = None
   \<and> (\<nexists>before after. snd (consumeSseEvents buffer) = before @ [LF, LF] @ after)"
proof -
  have none: "indexOf [LF, LF] (snd (consumeSseEvents buffer)) = None"
    by (simp add: consumeSseEvents_def sse_loop_rest_no_terminator)
  from indexOf_None_no_occurrence[OF none]
  have "\<nexists>before after. snd (consumeSseEvents buffer) = before @ [LF, LF] @ after"
    by blast
  with none show ?thesis by blast
qed

lemma consume_strip_cr: "consumeSseEvents (strip_cr buffer) = consumeSseEvents buffer"
  by (simp add: consumeSseEvents_def strip_cr_idem)

lemma consume_append_strip_cr:
  "consumeSseEvents (buffer @ strip_cr chunk) = consumeSseEvents (buffer @ chunk)"
  by (simp add: consumeSseEvents_def strip_cr_append strip_cr_idem)

lemma emitted_strip_cr: "emitted (map strip_cr chunks) buffer = emitted chunks buffer"
  by (induction chunks arbitrary: buffer) (simp_all add: consume_append_strip_cr)

lemma pending_strip_cr: "pending (map strip_cr chunks) buffer = pending chunks buffer"
  by (induction chunks arbitrary: buffer) (simp_all add: consume_append_strip_cr)

text \<open>
  Claim C7 (carriage-return invariance). \<open>consumeSseEvents\<close> returns the same events
  and the same buffer for an input and for that input without its carriage returns;
  so does it with a carriage return put in at any place; and the read loop emits the
  same payloads in every round and ends with the same buffer for a stream of chunks
  and for those chunks without their carriage returns.
\<close>

theorem carriage_return_invariance:
  "consumeSseEvents (strip_cr buffer) = consumeSseEvents buffer
   \<and> consumeSseEvents (before @ CR # after) = consumeSseEvents (before @ after)
   \<and> emitted (map strip_cr chunks) buffer = emitted chunks buffer
   \<and> pending (map strip_cr chunks) buffer = pending chunks buffer"
  by (simp add: consume_strip_cr emitted_strip_cr pending_strip_cr)
     (simp add: consumeSseEvents_def strip_cr_def)

text \<open>
  A run of complete records, each followed by its terminator, leaves nothing in the
  buffer.
\<close>

lemma consume_Nil: "consumeSseEvents [] = ([], [])"
  by (simp add: consumeSseEvents_def strip_cr_def sse_loop.simps)

lemma complete_records_leave_nothing:
  assumes "\<forall>r \<in> set records. indexOf [LF, LF] (strip_cr r @ [LF]) = None"
  shows "snd (consumeSseEvents (concat (map (\<lambda>r. r @ [LF, LF]) records))) = []"
  using assms
proof (induction records)
  case Nil
  show ?case by (simp add: consume_Nil)
next
  case (Cons r records)
  from Cons.prems have r: "indexOf [LF, LF] (strip_cr r @ [LF]) = None"
    and rs: "\<forall>r \<in> set records. indexOf [LF, LF] (strip_cr r @ [LF]) = None"
    by simp_all
  have "snd (consumeSseEvents (r @ [LF, LF] @ concat (map (\<lambda>r. r @ [LF, LF]) records)))
      = snd (consumeSseEvents (concat (map (\<lambda>r. r @ [LF, LF]) records)))"
    by (simp only: consume_record[OF r] snd_conv)
  with Cons.IH[OF rs] show ?case by simp
qed

text \<open>
  Claim C8 (a record without a data line is dropped). Take a record at any place in the
  buffer: after any text that \<open>consumeSseEvents\<close> consumes whole, as a run of complete
  records is, and before any rest. Let the record, read without its carriage returns, be
  followed by its terminator (so the record and one line feed hold no terminator), and
  let none of its lines start with \<open>data:\<close>. Then \<open>consumeSseEvents\<close> returns the
  payloads of the text before it followed by those of the rest, and the buffer of the
  rest: no payload for the record, not even an empty one, whatever was emitted before,
  and nothing of it left in the buffer. That is what it returns when the record and its
  terminator are taken out.
\<close>

theorem record_without_data_dropped:
  assumes "snd (consumeSseEvents before) = []"
    and "indexOf [LF, LF] (strip_cr record @ [LF]) = None"
    and "\<forall>line \<in> set (split_str LF (strip_cr record)). \<not> startsWith line (js ''data:'')"
  shows "consumeSseEvents (before @ record @ [LF, LF] @ rest)
           = (fst (consumeSseEvents before) @ fst (consumeSseEvents rest),
              snd (consumeSseEvents rest))
         \<and> consumeSseEvents (before @ record @ [LF, LF] @ rest)
           = consumeSseEvents (before @ rest)"
proof -
  have d: "consumeSseEvents (record @ [LF, LF] @ rest) = consumeSseEvents rest"
    using assms(3) consume_record[OF assms(2), of rest]
    by (simp add: dataLines_of_empty)
  have a: "consumeSseEvents (before @ tail)
      = (fst (consumeSseEvents before) @ fst (consumeSseEvents tail),
         snd (consumeSseEvents tail))" for tail
    using consume_append[of before tail] assms(1) by simp
  from a[of "record @ [LF, LF] @ rest"] a[of rest] d show ?thesis
    by simp
qed

theorem record_without_data_dropped_witness:
  "snd (consumeSseEvents (js ''data: x'' @ [LF, LF])) = []
   \<and> indexOf [LF, LF] (strip_cr (js '': keep-alive'' @ [CR, LF] @ js ''event: ping'') @ [LF]) = None
   \<and> split_str LF (strip_cr (js '': keep-alive'' @ [CR, LF] @ js ''event: ping''))
       = [js '': keep-alive'', js ''event: ping'']
   \<and> consumeSseEvents ((js ''data: x'' @ [LF, LF])
          @ (js '': keep-alive'' @ [CR, LF] @ js ''event: ping'') @ [LF, LF]
          @ js ''data: y'' @ [LF, LF] @ js ''da'')
       = ([js ''x'', js ''y''], js ''da'')
   \<and> consumeSseEvents ((js ''data: x'' @ [LF, LF])
          @ (js '': keep-alive'' @ [CR, LF] @ js ''event: ping'') @ [LF, LF])
       = ([js ''x''], [])"
proof -
  have b: "consumeSseEvents (js ''data: x'' @ [LF, LF]) = ([js ''x''], [])"
    by (simp add: demux_eval)
  then have h0: "snd (consumeSseEvents (js ''data: x'' @ [LF, LF])) = []"
    by simp
  have h1: "indexOf [LF, LF] (strip_cr (js '': keep-alive'' @ [CR, LF] @ js ''event: ping'') @ [LF]) = None"
    by (simp add: demux_eval)
  have h2: "\<forall>line \<in> set (split_str LF (strip_cr (js '': keep-alive'' @ [CR, LF] @ js ''event: ping''))).
         \<not> startsWith line (js ''data:'')"
    by (simp add: demux_eval)
  have l: "split_str LF (strip_cr (js '': keep-alive'' @ [CR, LF] @ js ''event: ping''))
       = [js '': keep-alive'', js ''event: ping'']"
    by (simp add: demux_eval)
  have v: "consumeSseEvents (js ''data: y'' @ [LF, LF] @ js ''da'') = ([js ''y''], js ''da'')"
    by (simp add: demux_eval)
  have e: "consumeSseEvents [] = ([], [])"
    by (rule consume_Nil)
  note step = record_without_data_dropped[OF h0 h1 h2, THEN conjunct1]
  from step[of "js ''data: y'' @ [LF, LF] @ js ''da''"] step[of "[]"] b v e h0 h1 l
  show ?thesis by simp
qed

section \<open>Properties of the accumulator\<close>

lemmas json_eval = JSON_parse_def js_def parse_value.simps parse_elements.simps
  parse_members.simps startsWith_def skip_ws_def isJsonWs_def parse_number_def
  number_length_def int_length_def frac_length_def exp_length_def isDigit_def escape_def
  hex4_def hexval_def Let_def

lemma parse_DONE: "JSON_parse (js ''[DONE]'') = None"
  by (simp add: json_eval)


lemma chunk_text: "fst (processSseDataChunk nts data rt f s) = rt @ delta nts data"
  by (simp add: processSseDataChunk_def delta_def parse_DONE split: option.splits sum.splits)

lemma chunk_no_parse:
  "JSON_parse data = None \<Longrightarrow>
   processSseDataChunk nts data rt f s =
     (rt, s, if data = js ''[DONE]'' then [] else [FailedToParse SyntaxError data])"
  by (simp add: processSseDataChunk_def)

lemma process_events_text:
  "\<forall>p \<in> set payloads. p \<noteq> js ''[DONE]'' \<Longrightarrow>
   fst (process_events nts flush payloads rt s) = rt @ concat (map (delta nts) payloads)"
proof (induction payloads arbitrary: rt s)
  case Nil
  then show ?case by simp
next
  case (Cons p ps)
  obtain rt' s' log where step: "processSseDataChunk nts p rt (flush rt) s = (rt', s', log)"
    by (cases "processSseDataChunk nts p rt (flush rt) s") auto
  then have rt': "rt' = rt @ delta nts p"
    using chunk_text[of nts p rt "flush rt" s] by simp
  from Cons.prems have "\<forall>q \<in> set ps. q \<noteq> js ''[DONE]''" and "p \<noteq> js ''[DONE]''"
    by simp_all
  with Cons.IH[of rt' s'] step rt' show ?case
    by (auto split: prod.splits)
qed

text \<open>
  Claim C2 (the accumulator concatenates the deltas, and only grows). For payloads none
  of which is \<open>[DONE]\<close>, the loop over the payloads returns the text it started
  with followed by the deltas of the payloads in order, where the delta of a payload is
  the text that \<open>processSseDataChunk\<close> appends for it (\<open>delta\<close>, empty when nothing
  is appended). The text a call of \<open>processSseDataChunk\<close> returns, and the text the
  loop returns, start with the text passed in.
\<close>

theorem accumulator_concatenates_deltas:
  assumes "\<forall>p \<in> set payloads. p \<noteq> js ''[DONE]''"
  shows "fst (process_events nts flush payloads responseText s)
           = responseText @ concat (map (delta nts) payloads)
         \<and> prefix responseText (fst (processSseDataChunk nts data responseText f s'))
         \<and> prefix responseText (fst (process_events nts flush payloads responseText s))"
  using process_events_text[OF assms, of nts flush responseText s]
  by (simp add: chunk_text)

lemma response_Hel: "JSON_parse (js ''{\"response\":\"Hel\"}'') = Some (JObj [(js ''response'', JStr (js ''Hel''))])"
  by (simp add: json_eval)

lemma response_lo: "JSON_parse (js ''{\"response\":\"lo\"}'') = Some (JObj [(js ''response'', JStr (js ''lo''))])"
  by (simp add: json_eval)

lemma response_empty: "JSON_parse (js ''{\"response\":\"\"}'') = Some (JObj [(js ''response'', JStr [])])"
  by (simp add: json_eval)

lemma delta_Hel: "delta nts (js ''{\"response\":\"Hel\"}'') = js ''Hel''"
  by (simp add: delta_def response_Hel select_content_def choices_content_def lookup_def)

lemma delta_lo: "delta nts (js ''{\"response\":\"lo\"}'') = js ''lo''"
  by (simp add: delta_def response_lo select_content_def choices_content_def lookup_def)

lemma delta_response_empty: "delta nts (js ''{\"response\":\"\"}'') = []"
  by (simp add: delta_def response_empty select_content_def choices_content_def lookup_def)

theorem accumulator_concatenates_deltas_witness:
  "fst (process_events (\<lambda>lit. lit) (\<lambda>text n. Suc n)
          [js ''{\"response\":\"Hel\"}'', js ''{\"response\":\"\"}'', js ''{\"response\":\"lo\"}'']
          [] (0::nat))
     = js ''Hello''
   \<and> prefix (js ''Hel'')
        (fst (processSseDataChunk (\<lambda>lit. lit) (js ''{\"response\":\"lo\"}'') (js ''Hel'') Suc (0::nat)))"
proof -
  have h: "\<forall>p \<in> set [js ''{\"response\":\"Hel\"}'', js ''{\"response\":\"\"}'', js ''{\"response\":\"lo\"}''].
             p \<noteq> js ''[DONE]''"
    by (simp add: js_def)
  have "fst (process_events (\<lambda>lit. lit) (\<lambda>text n. Suc n)
          [js ''{\"response\":\"Hel\"}'', js ''{\"response\":\"\"}'', js ''{\"response\":\"lo\"}'']
          [] (0::nat))
     = [] @ concat (map (delta (\<lambda>lit. lit))
         [js ''{\"response\":\"Hel\"}'', js ''{\"response\":\"\"}'', js ''{\"response\":\"lo\"}''])"
    by (rule accumulator_concatenates_deltas[OF h, THEN conjunct1])
  moreover have "prefix (js ''Hel'')
        (fst (processSseDataChunk (\<lambda>lit. lit) (js ''{\"response\":\"lo\"}'') (js ''Hel'') Suc (0::nat)))"
    by (simp add: chunk_text)
  ultimately show ?thesis
    by (simp add: delta_Hel delta_lo delta_response_empty) (simp add: js_def)
qed

lemma read_loop_emitted:
  "read_loop nts flush chunks None buffer rt s =
     (case process_batches nts flush (emitted chunks buffer) rt s of
        (rt', s', log) \<Rightarrow> (Inr rt', s', log))"
  by (induction chunks arbitrary: buffer rt s) (simp_all add: Let_def split: prod.splits)

lemma process_events_cons:
  "data \<noteq> js ''[DONE]'' \<Longrightarrow>
   process_events nts flush (data # rest) rt s =
     (case processSseDataChunk nts data rt (flush rt) s of
        (rt', s', log) \<Rightarrow>
          (case process_events nts flush rest rt' s' of
             (rt'', s'', log') \<Rightarrow> (rt'', s'', log @ log')))"
  by simp

text \<open>
  Claim C4 (a payload that does not parse is passed over). For a payload on which
  \<open>JSON.parse\<close> throws, \<open>processSseDataChunk\<close> returns the text it was given, does not
  call the callback (the caller's state is the same for every callback) and logs the
  failure, or logs nothing when the payload is \<open>[DONE]\<close>, which is returned at line 237
  before any parsing. It returns a value in every case: the model has no exceptional
  result, all throwing steps being inside the \<open>try\<close>. And unless the payload is
  \<open>[DONE]\<close>, the loop over a batch that starts with it goes on to the payloads after it
  and ends as it does on them alone, with the failure logged first.
\<close>

theorem malformed_payload_recovery:
  assumes "JSON_parse data = None"
  shows "processSseDataChunk nts data responseText f s
           = (responseText, s, if data = js ''[DONE]'' then [] else [FailedToParse SyntaxError data])
         \<and> (data = js ''[DONE]'' \<or>
              process_events nts flush (data # rest) responseText s
                = (case process_events nts flush rest responseText s of
                     (text, s', log) \<Rightarrow> (text, s', FailedToParse SyntaxError data # log)))"
  using assms by (simp add: chunk_no_parse split: prod.splits)

lemma parse_not_json: "JSON_parse (js ''{not json'') = None"
  by (simp add: json_eval)

lemma response_ok: "JSON_parse (js ''{\"response\":\"ok\"}'') = Some (JObj [(js ''response'', JStr (js ''ok''))])"
  by (simp add: json_eval)

lemma chunk_response_ok:
  "processSseDataChunk nts (js ''{\"response\":\"ok\"}'') rt f s = (rt @ js ''ok'', f s, [])"
  by (simp add: processSseDataChunk_def response_ok select_content_def choices_content_def lookup_def) (simp add: js_def)

theorem malformed_payload_recovery_witness:
  "processSseDataChunk (\<lambda>lit. lit) (js ''{not json'') (js ''Hi'') Suc (0::nat)
     = (js ''Hi'', 0, [FailedToParse SyntaxError (js ''{not json'')])
   \<and> process_events (\<lambda>lit. lit) (\<lambda>text. Suc) [js ''{not json'', js ''{\"response\":\"ok\"}''] (js ''Hi'') (0::nat)
     = (js ''Hiok'', 1, [FailedToParse SyntaxError (js ''{not json'')])"
proof -
  have h: "JSON_parse (js ''{not json'') = None"
    by (rule parse_not_json)
  have n: "js ''{not json'' \<noteq> js ''[DONE]''"
    by (simp add: js_def)
  have r: "process_events (\<lambda>lit. lit) (\<lambda>text. Suc) [js ''{\"response\":\"ok\"}''] (js ''Hi'') (0::nat)
     = (js ''Hiok'', 1, [])"
    by (simp add: chunk_response_ok) (simp add: js_def)
  from malformed_payload_recovery[OF h, of "\<lambda>lit. lit" "js ''Hi''" Suc "0::nat" "\<lambda>text. Suc"
      "[js ''{\"response\":\"ok\"}'']"] n r
  show ?thesis by simp
qed

text \<open>
  Claim C5 (the sentinel halts the batch). On a batch that holds \<open>[DONE]\<close>, the loop
  over the payloads ends as it does on the payloads before that \<open>[DONE]\<close> alone: same
  text, same state of the callback, same log. Whatever comes after it in the batch is
  never passed to \<open>processSseDataChunk\<close>.
\<close>

theorem sentinel_halts_batch:
  "process_events nts flush (before @ js ''[DONE]'' # after) responseText s
     = process_events nts flush before responseText s"
proof (induction before arbitrary: responseText s)
  case Nil
  show ?case by simp
next
  case (Cons data before)
  show ?case
    by (simp add: Cons.IH split: prod.splits)
qed


text \<open>
  The parts of the extraction policy that the code follows: a \<open>response\<close> that is a
  non-empty string is the delta; failing that, a non-empty string at
  \<open>choices[0].delta.content\<close> is; and where the first is absent and the second is
  absent or falsy, nothing is appended, the callback is not called and nothing is
  logged.
\<close>

lemma response_string_is_delta:
  assumes "JSON_parse data = Some jsonData"
    and "get_field (js ''response'') jsonData = Some (JStr r)"
    and "r \<noteq> []"
  shows "processSseDataChunk nts data rt f s = (rt @ r, f s, [])"
proof -
  from assms(1) have "data \<noteq> js ''[DONE]''"
    using parse_DONE by auto
  moreover from assms(2) have "jsonData \<noteq> JNull"
    by auto
  ultimately show ?thesis
    using assms by (simp add: processSseDataChunk_def select_content_def)
qed

lemma content_string_is_delta:
  assumes "JSON_parse data = Some jsonData"
    and "\<forall>r. get_field (js ''response'') jsonData = Some (JStr r) \<longrightarrow> r = []"
    and "choices_content jsonData = Some (JStr c)"
    and "c \<noteq> []"
  shows "processSseDataChunk nts data rt f s = (rt @ c, f s, [])"
proof -
  from assms(1) have "data \<noteq> js ''[DONE]''"
    using parse_DONE by auto
  moreover from assms(3) have "jsonData \<noteq> JNull"
    by (auto simp add: choices_content_def)
  ultimately show ?thesis
    using assms
    by (auto simp add: processSseDataChunk_def select_content_def split: option.splits jsval.splits)
qed

lemma no_shape_is_empty_delta:
  assumes "JSON_parse data = Some jsonData"
    and "jsonData \<noteq> JNull"
    and "\<forall>r. get_field (js ''response'') jsonData = Some (JStr r) \<longrightarrow> r = []"
    and "\<forall>v. choices_content jsonData = Some v \<longrightarrow> \<not> truthy nts v"
  shows "processSseDataChunk nts data rt f s = (rt, s, [])"
proof -
  from assms(1) have "data \<noteq> js ''[DONE]''"
    using parse_DONE by auto
  then show ?thesis
    using assms
    by (auto simp add: processSseDataChunk_def select_content_def split: option.splits jsval.splits)
qed

text \<open>
  A content that is a list of parts is truthy, and is printed as arrays and objects are.
\<close>

lemma parse_content_parts:
  "JSON_parse (js ''{\"choices\":[{\"delta\":{\"content\":[{\"type\":\"text\",\"text\":\"Hi\"}]}}]}'')
     = Some (JObj [(js ''choices'', JArr [JObj [(js ''delta'',
         JObj [(js ''content'', JArr [JObj [(js ''type'', JStr (js ''text'')),
                                           (js ''text'', JStr (js ''Hi''))]])])]])])"
  by (simp add: json_eval)

lemma content_parts_printed_as_object:
  "processSseDataChunk nts
     (js ''{\"choices\":[{\"delta\":{\"content\":[{\"type\":\"text\",\"text\":\"Hi\"}]}}]}'') [] f s
     = (js ''[object Object]'', f s, [])"
  by (simp add: processSseDataChunk_def parse_content_parts select_content_def
        choices_content_def lookup_def)
     (simp add: js_def)

lemma parse_content_true:
  "JSON_parse (js ''{\"choices\":[{\"delta\":{\"content\":true}}]}'')
     = Some (JObj [(js ''choices'', JArr [JObj [(js ''delta'', JObj [(js ''content'', JBool True)])]])])"
  by (simp add: json_eval)

text \<open>
  Claim C3 (the extraction policy) does not hold of the code where the value at
  \<open>choices[0].delta.content\<close> is truthy and not a string: the test of line 250 is on
  truthiness alone, while the test of line 246 on \<open>response\<close> asks for a string. The
  payload below has \<open>true\<close> there; the text \<open>true\<close> is appended and the callback is
  called, where the claim has an empty delta.
\<close>

theorem non_string_content_is_appended:
  "processSseDataChunk nts (js ''{\"choices\":[{\"delta\":{\"content\":true}}]}'') (js ''Hi'') f s
     = (js ''Hitrue'', f s, [])"
  by (simp add: processSseDataChunk_def parse_content_true select_content_def choices_content_def lookup_def)
     (simp add: js_def)

lemma parse_null: "JSON_parse (js ''null'') = Some JNull"
  by (simp add: json_eval)

lemma null_payload_is_logged:
  "processSseDataChunk nts (js ''null'') rt f s = (rt, s, [FailedToParse TypeError (js ''null'')])"
  by (simp add: processSseDataChunk_def parse_null select_content_def)
     (simp add: js_def)

section \<open>Properties of \<open>sendMessage\<close>\<close>

lemma sendMessage_start_busy:
  "sendMessage_start p = Some (i, p') \<Longrightarrow> isProcessing p' \<and> requests p' = requests p @ [chatHistory p']"
  by (auto simp add: sendMessage_start_def Let_def createAssistantMessageElement_def
        addMessageToChat_def split: if_splits)

text \<open>
  Claim C9 (one exchange at a time). Called while \<open>isProcessing\<close> is set, or with an
  input that is empty once trimmed, \<open>sendMessage\<close> returns at its guard: the page is
  the same in every part, so nothing is added to the history or to the chat, the flag
  is as it was and no request is issued, whatever the network would have answered.
  By \<open>sendMessage_start_busy\<close> the flag is set from the moment a call has issued its
  request.
\<close>

theorem busy_or_empty_rejected:
  assumes "isProcessing p \<or> trim (userInput_value p) = []"
  shows "sendMessage_start p = None \<and> sendMessage nts r p = p"
  using assms by (auto simp add: sendMessage_def sendMessage_start_def Let_def)

theorem busy_or_empty_rejected_witness:
  "(case sendMessage_start (initial_page (js ''hi'')) of
      None \<Rightarrow> False
    | Some (i, p) \<Rightarrow>
        isProcessing p
        \<and> sendMessage (\<lambda>lit. lit) (Response 200 (js ''OK'') (Some ([], None)))
              (p\<lparr>userInput_value := js ''again''\<rparr>)
            = p\<lparr>userInput_value := js ''again''\<rparr>)
   \<and> sendMessage (\<lambda>lit. lit) (Response 200 (js ''OK'') (Some ([], None)))
         (initial_page [32, 10, 9])
       = initial_page [32, 10, 9]"
proof -
  have t: "trim (js ''hi'') = js ''hi''"
    by (simp add: trim_def trimStart_def trimEnd_def isWhiteSpace_def js_def)
  then have "sendMessage_start (initial_page (js ''hi'')) \<noteq> None"
    by (simp add: sendMessage_start_def initial_page_def Let_def js_def split: prod.splits)
  then obtain i p where s: "sendMessage_start (initial_page (js ''hi'')) = Some (i, p)"
    by auto
  then have b: "isProcessing p"
    using sendMessage_start_busy by blast
  then have "isProcessing (p\<lparr>userInput_value := js ''again''\<rparr>)
      \<or> trim (userInput_value (p\<lparr>userInput_value := js ''again''\<rparr>)) = []"
    by simp
  note busy = busy_or_empty_rejected[OF this, THEN conjunct2]
  have "isProcessing (initial_page [32, 10, 9])
      \<or> trim (userInput_value (initial_page [32, 10, 9])) = []"
    by (simp add: initial_page_def trim_def trimStart_def trimEnd_def isWhiteSpace_def)
  note empty = busy_or_empty_rejected[OF this, THEN conjunct2]
  show ?thesis
    by (simp add: s b busy empty)
qed

lemma response_Hello:
  "JSON_parse (js ''{\"response\":\"Hello\"}'') = Some (JObj [(js ''response'', JStr (js ''Hello''))])"
  by (simp add: json_eval)

lemma chunk_response_Hello:
  "processSseDataChunk nts (js ''{\"response\":\"Hello\"}'') rt f s = (rt @ js ''Hello'', f s, [])"
  using response_string_is_delta[OF response_Hello, of "js ''Hello''" nts rt f s]
  by (simp add: lookup_def) (simp add: js_def)

lemma consume_Hello:
  "consumeSseEvents (js ''data: {\"response\":\"Hello\"}'' @ [LF, LF])
     = ([js ''{\"response\":\"Hello\"}''], [])"
  by (simp add: demux_eval)

lemma consume_flush_empty: "consumeSseEvents [LF, LF] = ([], [])"
  by (simp add: demux_eval)

text \<open>
  The text shown lags behind the text accumulated. The callback reads the variable
  \<open>responseText\<close> of \<open>sendMessage\<close>, which is assigned when \<open>processSseDataChunk\<close>
  has returned: after a stream of the one event \<open>{"response":"Hello"}\<close> the history
  holds \<open>Hello\<close> and the paragraph of the answer is still empty.
\<close>

lemma display_lags_behind_text:
  "map textContent (chatMessages
     (sendMessage nts
        (Response 200 (js ''OK'')
           (Some ([js ''data: {\"response\":\"Hello\"}'' @ [LF, LF]], None)))
        (initial_page (js ''hi''))))
     = [js ''hi'', []]
   \<and> map content (chatHistory
     (sendMessage nts
        (Response 200 (js ''OK'')
           (Some ([js ''data: {\"response\":\"Hello\"}'' @ [LF, LF]], None)))
        (initial_page (js ''hi''))))
     = [content (hd (chatHistory (initial_page []))), js ''hi'', js ''Hello'']"
proof -
  have t: "trim (js ''hi'') = js ''hi''"
    by (simp add: trim_def trimStart_def trimEnd_def isWhiteSpace_def js_def)
  have n: "js ''{\"response\":\"Hello\"}'' \<noteq> js ''[DONE]''"
    by (simp add: js_def)
  have h: "js ''hi'' \<noteq> []"
    by (simp add: js_def)
  show ?thesis
    by (simp add: sendMessage_def sendMessage_start_def initial_page_def t h Let_def
          createAssistantMessageElement_def addMessageToChat_def exchange_def
          consume_Hello consume_flush_empty n chunk_response_Hello flushAssistantText_def
          sendMessage_finish_def)
qed

end
